theory Spec2Isabelle
  imports Main
begin

section \<open>Data model\<close>

text \<open>
  The class \<open>Minesweeper\<close> of \<open>main.cpp\<close> holds three \<open>int\<close> fields and three
  vectors of vectors. The \<open>int\<close>s are modelled as unbounded integers: the only
  arithmetic on them is \<open>row + i\<close> with \<open>i\<close> in \<open>{-1, 0, 1}\<close> on an index of a
  vector, and the increments of \<open>num_placed\<close> and \<open>count\<close>, none of which can leave
  the range of a 32-bit \<open>int\<close>.
\<close>

text \<open>
  What the program does instead of returning normally:
  \<^item> \<open>Negative_Size\<close>: a \<open>std::vector\<close> is constructed with a negative \<open>int\<close> as its
    size, which converts to a size the library cannot provide (in the common case
    \<open>std::length_error\<close> or \<open>std::bad_alloc\<close>, which the program does not catch);
  \<^item> \<open>Invalid_Distribution\<close>: \<open>std::uniform_int_distribution<>(0, n - 1)\<close> is
    constructed with \<open>n - 1 < 0\<close>, against its precondition (undefined behaviour);
  \<^item> \<open>Index_Out_Of_Range\<close>: \<open>operator[]\<close> of a vector is applied to an index outside
    it (undefined behaviour);
  \<^item> \<open>Input_Failure\<close>: \<open>std::cin >> x\<close> finds no further integer, and the program goes on
    to use the variable it did not set.

  Memory is taken as unbounded: a board of \<open>R\<close> by \<open>C\<close> cells with \<open>R, C \<ge> 0\<close> is
  always allocated.
\<close>

datatype error = Negative_Size | Invalid_Distribution | Index_Out_Of_Range | Input_Failure

type_synonym cell = "int \<times> int"

record minesweeper =
  rows :: int
  cols :: int
  num_mines :: int
  minefield :: "bool list list"
  revealed :: "bool list list"
  counts :: "int list list"

text \<open>\<open>v[row][col]\<close> read with \<open>int\<close> indices: \<open>None\<close> stands for an index outside the vector.\<close>

definition at2 :: "'a list list \<Rightarrow> int \<Rightarrow> int \<Rightarrow> 'a option" where
  "at2 v row col =
     (if 0 \<le> row \<and> row < int (length v) \<and> 0 \<le> col \<and> col < int (length (v ! nat row))
      then Some (v ! nat row ! nat col) else None)"

text \<open>\<open>v[row][col] = x\<close>; used only after \<open>at2 v row col\<close> was found in range.\<close>

definition set2 :: "'a list list \<Rightarrow> int \<Rightarrow> int \<Rightarrow> 'a \<Rightarrow> 'a list list" where
  "set2 v row col x = v[nat row := (v ! nat row)[nat col := x]]"

section \<open>The constructor\<close>

text \<open>
  The constructor seeds a \<open>std::mt19937\<close> from \<open>std::random_device\<close> and draws
  \<open>row_dist(gen)\<close>, \<open>col_dist(gen)\<close> once per iteration of the placement loop. The
  generator is not part of the repository: the pairs it yields, in order, are the
  argument \<open>draws\<close>. The loop has no bound, so a finite list of draws can run out
  before \<open>num_placed\<close> reaches \<open>num_mines\<close>: that is the value \<open>None\<close> (the loop
  has not returned after that many draws).
\<close>

fun place_mines :: "int \<Rightarrow> int \<Rightarrow> bool list list \<Rightarrow> cell list \<Rightarrow> (error + bool list list) option" where
  "place_mines num_mines' num_placed field [] =
     (if num_placed < num_mines' then None else Some (Inr field))"
| "place_mines num_mines' num_placed field ((row, col) # draws) =
     (if num_placed < num_mines' then
        (case at2 field row col of
           None \<Rightarrow> Some (Inl Index_Out_Of_Range)
         | Some mine \<Rightarrow>
             if \<not> mine then place_mines num_mines' (num_placed + 1) (set2 field row col True) draws
             else place_mines num_mines' num_placed field draws)
      else Some (Inr field))"

text \<open>
  The two inner \<open>for\<close> loops over \<open>i\<close> and \<open>j\<close> of the count computation. The read
  \<open>minefield[row + i][col + j]\<close> stands behind the bounds test, so it is in range
  whenever the vector has \<open>rows\<close> lines of \<open>cols\<close> cells.
\<close>

definition count_mines :: "int \<Rightarrow> int \<Rightarrow> bool list list \<Rightarrow> int \<Rightarrow> int \<Rightarrow> int" where
  "count_mines R C field row col =
     fold (\<lambda>i count.
       fold (\<lambda>j count.
         if row + i \<ge> 0 \<and> row + i < R \<and> col + j \<ge> 0 \<and> col + j < C \<and>
            at2 field (row + i) (col + j) = Some True
         then count + 1 else count) [-1, 0, 1] count) [-1, 0, 1] 0"

definition compute_counts :: "int \<Rightarrow> int \<Rightarrow> bool list list \<Rightarrow> int list list" where
  "compute_counts R C field =
     map (\<lambda>row. map (\<lambda>col.
       if at2 field row col = Some True then - 1 else count_mines R C field row col)
       [0..C - 1]) [0..R - 1]"

text \<open>
  The constructor: the three vectors, the two distributions, the placement loop, the
  counts. \<open>counts\<close> is first filled with zeros and then written cell by cell; the model
  gives each cell its final value at once.
\<close>

definition Minesweeper :: "int \<Rightarrow> int \<Rightarrow> int \<Rightarrow> cell list \<Rightarrow> (error + minesweeper) option" where
  "Minesweeper rows' cols' num_mines' draws =
     (if rows' < 0 \<or> cols' < 0 then Some (Inl Negative_Size)
      else if rows' - 1 < 0 \<or> cols' - 1 < 0 then Some (Inl Invalid_Distribution)
      else
        (case place_mines num_mines' 0 (replicate (nat rows') (replicate (nat cols') False)) draws of
           None \<Rightarrow> None
         | Some (Inl e) \<Rightarrow> Some (Inl e)
         | Some (Inr field) \<Rightarrow>
             Some (Inr \<lparr>rows = rows', cols = cols', num_mines = num_mines',
               minefield = field,
               revealed = replicate (nat rows') (replicate (nat cols') False),
               counts = compute_counts rows' cols' field\<rparr>)))"

section \<open>The game predicates\<close>

text \<open>
  Both scan the board by \<open>row < rows\<close> and \<open>col < cols\<close> and return at the first cell that
  decides. The reads \<open>minefield[row][col]\<close> and \<open>revealed[row][col]\<close> are in range
  whenever the vectors have \<open>rows\<close> lines of \<open>cols\<close> cells.
\<close>

definition is_game_over :: "minesweeper \<Rightarrow> bool" where
  "is_game_over g =
     list_ex (\<lambda>row. list_ex (\<lambda>col.
       at2 (minefield g) row col = Some True \<and> at2 (revealed g) row col = Some True)
       [0..cols g - 1]) [0..rows g - 1]"

definition is_game_won :: "minesweeper \<Rightarrow> bool" where
  "is_game_won g =
     list_all (\<lambda>row. list_all (\<lambda>col.
       \<not> (at2 (minefield g) row col \<noteq> Some True \<and> at2 (revealed g) row col \<noteq> Some True))
       [0..cols g - 1]) [0..rows g - 1]"

section \<open>reveal\<close>

text \<open>The two \<open>for\<close> loops that push the in-bounds cells of the 3x3 block; the head of the list is \<open>stack.back()\<close>.\<close>

definition push_neighbours :: "int \<Rightarrow> int \<Rightarrow> int \<Rightarrow> int \<Rightarrow> cell list \<Rightarrow> cell list" where
  "push_neighbours R C r c stack =
     fold (\<lambda>i st.
       fold (\<lambda>j st.
         if r + i \<ge> 0 \<and> r + i < R \<and> c + j \<ge> 0 \<and> c + j < C
         then (r + i, c + j) # st else st) [-1, 0, 1] st) [-1, 0, 1] stack"

text \<open>One iteration of the \<open>while\<close> loop, after \<open>(r, c)\<close> was popped and \<open>stack\<close> is the rest.\<close>

fun reveal_body :: "minesweeper \<Rightarrow> cell \<Rightarrow> cell list \<Rightarrow> error + minesweeper \<times> cell list" where
  "reveal_body g (r, c) stack =
     (case at2 (revealed g) r c of
        None \<Rightarrow> Inl Index_Out_Of_Range
      | Some shown \<Rightarrow>
          if shown then Inr (g, stack)
          else
            (let g' = g\<lparr>revealed := set2 (revealed g) r c True\<rparr> in
             case at2 (counts g') r c of
               None \<Rightarrow> Inl Index_Out_Of_Range
             | Some n \<Rightarrow>
                 if n = 0 then Inr (g', push_neighbours (rows g') (cols g') r c stack)
                 else Inr (g', stack)))"

text \<open>The number of hidden cells: with the length of the stack, what the loop uses up.\<close>

definition hidden :: "bool list list \<Rightarrow> nat" where
  "hidden v = sum_list (map (\<lambda>line. length (filter Not line)) v)"

lemma length_push_neighbours: "length (push_neighbours R C r c st) \<le> length st + 9"
  by (simp add: push_neighbours_def)

lemma length_push_neighbours_ge: "length st \<le> length (push_neighbours R C r c st)"
  by (simp add: push_neighbours_def)

lemma filter_Not_update:
  "c < length line \<Longrightarrow> \<not> line ! c \<Longrightarrow>
     Suc (length (filter Not (line[c := True]))) = length (filter Not line)"
proof (induction line arbitrary: c)
  case Nil
  then show ?case by simp
next
  case (Cons b line)
  then show ?case by (cases c) auto
qed

lemma hidden_update:
  "r < length v \<Longrightarrow> c < length (v ! r) \<Longrightarrow> \<not> v ! r ! c \<Longrightarrow>
     Suc (hidden (v[r := (v ! r)[c := True]])) = hidden v"
proof (induction v arbitrary: r)
  case Nil
  then show ?case by simp
next
  case (Cons line v)
  show ?case
  proof (cases r)
    case 0
    with Cons.prems filter_Not_update [of c line] show ?thesis
      by (simp add: hidden_def)
  next
    case (Suc k)
    with Cons.prems Cons.IH [of k] show ?thesis
      by (simp add: hidden_def)
  qed
qed

lemma hidden_set2:
  "at2 v r c = Some False \<Longrightarrow> Suc (hidden (set2 v r c True)) = hidden v"
  unfolding at2_def set2_def
  by (rule hidden_update) (auto split: if_splits)

text \<open>
  Each iteration pops one cell; it pushes at most nine, and only after it has revealed
  a hidden cell. So nine times the hidden cells plus the length of the stack decreases.
\<close>

definition reveal_measure :: "minesweeper \<times> cell list \<Rightarrow> nat" where
  "reveal_measure s = 9 * hidden (revealed (fst s)) + length (snd s)"

lemma reveal_body_pushes:
  assumes "reveal_body g p stack = Inr (g', stack')"
  shows "length stack \<le> length stack' \<and>
         (length stack' - length stack) + 9 * hidden (revealed g') \<le> 9 * hidden (revealed g)"
proof -
  obtain r c where p: "p = (r, c)" by (cases p)
  show ?thesis
  proof (cases "at2 (revealed g) r c")
    case None
    with assms p show ?thesis by simp
  next
    case (Some shown)
    show ?thesis
    proof (cases shown)
      case True
      with assms p Some show ?thesis by simp
    next
      case False
      with Some have h: "Suc (hidden (set2 (revealed g) r c True)) = hidden (revealed g)"
        by (simp add: hidden_set2)
      have l: "length (push_neighbours (rows g) (cols g) r c stack) \<le> length stack + 9"
        by (rule length_push_neighbours)
      have l': "length stack \<le> length (push_neighbours (rows g) (cols g) r c stack)"
        by (rule length_push_neighbours_ge)
      from assms p Some False h l l' show ?thesis
        by (auto simp: Let_def split: option.splits if_splits)
    qed
  qed
qed

lemma reveal_body_measure:
  assumes "reveal_body g p stack = Inr (g', stack')"
  shows "reveal_measure (g', stack') < reveal_measure (g, p # stack)"
  using reveal_body_pushes [OF assms] by (auto simp: reveal_measure_def)

text \<open>The \<open>while (!stack.empty())\<close> loop of \<open>reveal\<close>.\<close>

function reveal_loop :: "minesweeper \<Rightarrow> cell list \<Rightarrow> error + minesweeper" where
  "reveal_loop g [] = Inr g"
| "reveal_loop g (p # stack) =
     (case reveal_body g p stack of
        Inl e \<Rightarrow> Inl e
      | Inr (g', stack') \<Rightarrow> reveal_loop g' stack')"
  by pat_completeness auto
termination
  by (relation "measure (\<lambda>(g, stack). reveal_measure (g, stack))")
     (auto dest: reveal_body_measure)

declare reveal_loop.simps [simp del]

text \<open>
  \<open>reveal\<close>: the first statement reads \<open>minefield[row][col]\<close> without a test of the
  indices; a mine is marked revealed and nothing else happens, any other cell starts the
  loop with the stack \<open>{{row, col}}\<close>.
\<close>

definition reveal :: "minesweeper \<Rightarrow> int \<Rightarrow> int \<Rightarrow> error + minesweeper" where
  "reveal g row col =
     (case at2 (minefield g) row col of
        None \<Rightarrow> Inl Index_Out_Of_Range
      | Some mine \<Rightarrow>
          if mine then
            (case at2 (revealed g) row col of
               None \<Rightarrow> Inl Index_Out_Of_Range
             | Some shown \<Rightarrow> Inr (g\<lparr>revealed := set2 (revealed g) row col True\<rparr>))
          else reveal_loop g [(row, col)])"

text \<open>
  The same loop cut off after \<open>n\<close> iterations (\<open>None\<close>: the stack is not yet empty), with
  the number of \<open>push_back\<close> calls it made.
\<close>

fun reveal_loop_bounded :: "nat \<Rightarrow> minesweeper \<Rightarrow> cell list \<Rightarrow> ((error + minesweeper) \<times> nat) option" where
  "reveal_loop_bounded n g [] = Some (Inr g, 0)"
| "reveal_loop_bounded 0 g (p # stack) = None"
| "reveal_loop_bounded (Suc n) g (p # stack) =
     (case reveal_body g p stack of
        Inl e \<Rightarrow> Some (Inl e, 0)
      | Inr (g', stack') \<Rightarrow>
          (case reveal_loop_bounded n g' stack' of
             None \<Rightarrow> None
           | Some (res, pushes) \<Rightarrow> Some (res, (length stack' - length stack) + pushes)))"

section \<open>main\<close>

text \<open>
  The loop of \<open>main\<close> over the integers read from standard input; printing is left out.
  The value is the exit code. Every \<open>break\<close> and the end of the loop lead to the one
  \<open>return 0\<close>.
\<close>

fun main_loop :: "minesweeper \<Rightarrow> int list \<Rightarrow> error + int" where
  "main_loop game (row # col # inp) =
     (if \<not> is_game_over game then
        (case reveal game row col of
           Inl e \<Rightarrow> Inl e
         | Inr game' \<Rightarrow>
             if is_game_won game' then Inr 0
             else if is_game_over game' then Inr 0
             else main_loop game' inp)
      else Inr 0)"
| "main_loop game inp = (if \<not> is_game_over game then Inl Input_Failure else Inr 0)"

definition main :: "int list \<Rightarrow> cell list \<Rightarrow> (error + int) option" where
  "main inp draws =
     (case inp of
        rows' # cols' # num_mines' # rest \<Rightarrow>
          (case Minesweeper rows' cols' num_mines' draws of
             None \<Rightarrow> None
           | Some (Inl e) \<Rightarrow> Some (Inl e)
           | Some (Inr game) \<Rightarrow> Some (main_loop game rest))
      | _ \<Rightarrow> Some (Inl Input_Failure))"

section \<open>Notions the claims are stated with\<close>

text \<open>
  The states a program can see: what the constructor returns, and what \<open>reveal\<close>
  makes of such a state when it returns.
\<close>

inductive reachable :: "minesweeper \<Rightarrow> bool" where
  constructed: "Minesweeper R C M draws = Some (Inr g) \<Longrightarrow> reachable g"
| revealing: "reachable g \<Longrightarrow> reveal g row col = Inr g' \<Longrightarrow> reachable g'"

text \<open>
  A sequence of \<open>reveal\<close> calls, as a caller of the class makes them; it stops at the
  first call that does not return.
\<close>

fun reveal_all :: "minesweeper \<Rightarrow> cell list \<Rightarrow> error + minesweeper" where
  "reveal_all g [] = Inr g"
| "reveal_all g ((row, col) # cells) =
     (case reveal g row col of Inl e \<Rightarrow> Inl e | Inr g' \<Rightarrow> reveal_all g' cells)"

text \<open>
  The Moore neighbourhood in the words of the specification:
  \<open>{(r+i, c+j) : i,j \<in> {-1,0,1}, (i,j) \<noteq> (0,0)} \<inter> board\<close>.
\<close>

definition moore :: "int \<Rightarrow> int \<Rightarrow> cell \<Rightarrow> cell set" where
  "moore R C p =
     (\<lambda>(i, j). (fst p + i, snd p + j)) ` ({- 1, 0, 1} \<times> {- 1, 0, 1} - {(0, 0)}) \<inter>
     ({0..<R} \<times> {0..<C})"

text \<open>Two cells are next to each other (or the same) when they lie in one 3x3 block.\<close>

definition near :: "cell \<Rightarrow> cell \<Rightarrow> bool" where
  "near p q \<longleftrightarrow> \<bar>fst q - fst p\<bar> \<le> 1 \<and> \<bar>snd q - snd p\<bar> \<le> 1"

definition in_grid :: "minesweeper \<Rightarrow> int \<Rightarrow> int \<Rightarrow> bool" where
  "in_grid g r c \<longleftrightarrow> 0 \<le> r \<and> r < rows g \<and> 0 \<le> c \<and> c < cols g"

text \<open>
  A path \<open>p, q\<^sub>1, \<dots>, q\<^sub>n\<close> of cells of the board, each next to the one before, on which
  every cell but the last has count 0.
\<close>

fun flood_path :: "minesweeper \<Rightarrow> cell \<Rightarrow> cell list \<Rightarrow> bool" where
  "flood_path g p [] = True"
| "flood_path g p (q # qs) =
     (at2 (counts g) (fst p) (snd p) = Some 0 \<and> near p q \<and> in_grid g (fst q) (snd q) \<and>
      flood_path g q qs)"

text \<open>
  The path of the specification's sentence, read by the letter: only the cells strictly
  between \<open>p\<close> and the last one need count 0.
\<close>

fun interior_zero_path :: "minesweeper \<Rightarrow> cell \<Rightarrow> cell list \<Rightarrow> bool" where
  "interior_zero_path g p [] = True"
| "interior_zero_path g p (q # qs) =
     (near p q \<and> in_grid g (fst q) (snd q) \<and> flood_path g q qs)"

text \<open>
  Two boards used as concrete inputs: 3x3 with its one mine at \<open>(0, 0)\<close>, and 2x2 with
  mines at \<open>(0, 0)\<close> and \<open>(1, 1)\<close>, each as the constructor returns it for the draws given.
\<close>

definition board_3x3 :: minesweeper where
  "board_3x3 = \<lparr>rows = 3, cols = 3, num_mines = 1,
     minefield = [[True, False, False], [False, False, False], [False, False, False]],
     revealed = [[False, False, False], [False, False, False], [False, False, False]],
     counts = [[- 1, 1, 0], [1, 1, 0], [0, 0, 0]]\<rparr>"

definition board_2x2 :: minesweeper where
  "board_2x2 = \<lparr>rows = 2, cols = 2, num_mines = 2,
     minefield = [[True, False], [False, True]],
     revealed = [[False, False], [False, False]],
     counts = [[- 1, 2], [2, - 1]]\<rparr>"

section \<open>Invariants used in the proofs\<close>

text \<open>A vector of \<open>R\<close> lines of \<open>C\<close> cells.\<close>

definition shaped :: "int \<Rightarrow> int \<Rightarrow> 'a list list \<Rightarrow> bool" where
  "shaped R C v \<longleftrightarrow> length v = nat R \<and> (\<forall>line \<in> set v. length line = nat C)"

text \<open>What the constructor establishes and \<open>reveal\<close> keeps.\<close>

definition board_inv :: "minesweeper \<Rightarrow> bool" where
  "board_inv g \<longleftrightarrow>
     1 \<le> rows g \<and> 1 \<le> cols g \<and>
     shaped (rows g) (cols g) (minefield g) \<and>
     shaped (rows g) (cols g) (revealed g) \<and>
     counts g = compute_counts (rows g) (cols g) (minefield g)"

text \<open>What \<open>reveal\<close> and its loop can change: only \<open>revealed\<close>, and only from hidden to revealed.\<close>

definition grows :: "minesweeper \<Rightarrow> minesweeper \<Rightarrow> bool" where
  "grows g g' \<longleftrightarrow>
     rows g' = rows g \<and> cols g' = cols g \<and> num_mines g' = num_mines g \<and>
     minefield g' = minefield g \<and> counts g' = counts g \<and>
     (shaped (rows g) (cols g) (revealed g) \<longrightarrow> shaped (rows g) (cols g) (revealed g')) \<and>
     (\<forall>r c. at2 (revealed g) r c = Some True \<longrightarrow> at2 (revealed g') r c = Some True)"

text \<open>The offsets \<open>(i, j)\<close> of the two inner loops.\<close>

definition block :: "cell set" where
  "block = {i. \<bar>i\<bar> \<le> 1} \<times> {j. \<bar>j\<bar> \<le> 1}"

text \<open>The mines the two loops of the count computation see around a cell, the cell itself included.\<close>

definition mines_around :: "int \<Rightarrow> int \<Rightarrow> bool list list \<Rightarrow> cell \<Rightarrow> cell set" where
  "mines_around R C field p =
     {q. near p q \<and> 0 \<le> fst q \<and> fst q < R \<and> 0 \<le> snd q \<and> snd q < C \<and>
        at2 field (fst q) (snd q) = Some True}"

text \<open>
  What the loop of \<open>reveal\<close> keeps: around every revealed cell with count 0, each cell
  of the board is revealed or waits on the stack.
\<close>

definition flood_closed :: "minesweeper \<Rightarrow> cell list \<Rightarrow> bool" where
  "flood_closed g stack \<longleftrightarrow>
     (\<forall>r c r' c'.
        at2 (revealed g) r c = Some True \<and> at2 (counts g) r c = Some 0 \<and>
        near (r, c) (r', c') \<and> in_grid g r' c' \<longrightarrow>
        at2 (revealed g) r' c' = Some True \<or> (r', c') \<in> set stack)"

section \<open>Reading and writing a cell\<close>

lemma shaped_replicate: "0 \<le> R \<Longrightarrow> shaped R C (replicate (nat R) (replicate (nat C) x))"
  by (simp add: shaped_def)

lemma at2_shaped:
  "shaped R C v \<Longrightarrow>
     at2 v r c = (if 0 \<le> r \<and> r < R \<and> 0 \<le> c \<and> c < C then Some (v ! nat r ! nat c) else None)"
  by (auto simp: shaped_def at2_def split: if_splits)

lemma shaped_set2:
  assumes "shaped R C v"
  shows "shaped R C (set2 v r c x)"
proof -
  have "length line = nat C" if "line \<in> set (set2 v r c x)" for line
  proof -
    have "line = (v ! nat r)[nat c := x] \<and> nat r < length v \<or> line \<in> set v"
    proof (cases "nat r < length v")
      case True
      with that show ?thesis
        unfolding set2_def by (auto dest: set_update_subset_insert [THEN subsetD])
    next
      case False
      then have "length v \<le> nat r" by simp
      then have "set2 v r c x = v"
        unfolding set2_def by (rule list_update_beyond)
      with that show ?thesis by simp
    qed
    with assms show ?thesis
      by (auto simp: shaped_def)
  qed
  with assms show ?thesis
    by (simp add: shaped_def set2_def)
qed

lemma at2_set2:
  assumes "at2 v r c \<noteq> None"
  shows "at2 (set2 v r c x) r' c' = (if r' = r \<and> c' = c then Some x else at2 v r' c')"
proof -
  from assms have r: "0 \<le> r" "nat r < length v" "r < int (length v)"
    and c: "0 \<le> c" "nat c < length (v ! nat r)" "c < int (length (v ! nat r))"
    by (auto simp: at2_def split: if_splits)
  have len: "length (set2 v r c x) = length v"
    by (simp add: set2_def)
  show ?thesis
  proof (cases "0 \<le> r' \<and> r' < int (length v)")
    case False
    then have "at2 (set2 v r c x) r' c' = None" "at2 v r' c' = None" "r' \<noteq> r"
      using r by (auto simp: at2_def len)
    then show ?thesis by simp
  next
    case in_r: True
    show ?thesis
    proof (cases "r' = r")
      case True
      have line: "set2 v r c x ! nat r = (v ! nat r)[nat c := x]"
        using r by (simp add: set2_def)
      have "at2 (set2 v r c x) r c' =
              (if 0 \<le> c' \<and> c' < int (length (v ! nat r))
               then Some ((v ! nat r)[nat c := x] ! nat c') else None)"
        using r by (simp add: at2_def len line)
      also have "\<dots> = (if c' = c then Some x else at2 v r c')"
      proof (cases "c' = c")
        case True
        with c show ?thesis by simp
      next
        case False
        then have "0 \<le> c' \<Longrightarrow> nat c' \<noteq> nat c"
          using c by simp
        then show ?thesis
          using False r by (auto simp: at2_def)
      qed
      finally show ?thesis
        using True by simp
    next
      case False
      with r in_r have "nat r' \<noteq> nat r" by linarith
      then have "set2 v r c x ! nat r' = v ! nat r'"
        by (simp add: set2_def)
      then show ?thesis
        using False by (simp add: at2_def len)
    qed
  qed
qed

lemma at2_replicate:
  "at2 (replicate (nat R) (replicate (nat C) x)) r c =
     (if 0 \<le> r \<and> r < R \<and> 0 \<le> c \<and> c < C then Some x else None)"
  by (auto simp: at2_def split: if_splits)

lemma place_mines_shaped:
  "shaped R C field \<Longrightarrow> place_mines M n field draws = Some (Inr field') \<Longrightarrow> shaped R C field'"
proof (induction draws arbitrary: n field)
  case Nil
  then show ?case by (simp split: if_splits)
next
  case (Cons d draws)
  obtain row col where d: "d = (row, col)" by (cases d)
  from Cons.prems show ?case
    by (auto simp: d shaped_set2 split: if_splits option.splits
        dest: Cons.IH [rotated])
qed

lemma shaped_compute_counts: "shaped R C (compute_counts R C field)"
  by (auto simp: shaped_def compute_counts_def)

lemma Minesweeper_Inr:
  assumes "Minesweeper R C M draws = Some (Inr g)"
  shows "board_inv g" and "rows g = R" and "cols g = C" and "num_mines g = M"
    and "revealed g = replicate (nat R) (replicate (nat C) False)"
proof -
  from assms have RC: "1 \<le> R" "1 \<le> C"
    by (auto simp: Minesweeper_def split: if_splits)
  from assms RC obtain field where
    pm: "place_mines M 0 (replicate (nat R) (replicate (nat C) False)) draws = Some (Inr field)"
    and g: "g = \<lparr>rows = R, cols = C, num_mines = M, minefield = field,
               revealed = replicate (nat R) (replicate (nat C) False),
               counts = compute_counts R C field\<rparr>"
    by (auto simp: Minesweeper_def split: if_splits option.splits sum.splits)
  from RC have "shaped R C (replicate (nat R) (replicate (nat C) False))"
    by (simp add: shaped_replicate)
  from place_mines_shaped [OF this pm] have "shaped R C field" .
  with RC g show "board_inv g"
    by (simp add: board_inv_def shaped_replicate)
  from g show "rows g = R" "cols g = C" "num_mines g = M"
    "revealed g = replicate (nat R) (replicate (nat C) False)"
    by simp_all
qed

lemma grows_refl: "grows g g"
  by (simp add: grows_def)

lemma grows_trans: "grows g g' \<Longrightarrow> grows g' g'' \<Longrightarrow> grows g g''"
  by (simp add: grows_def)

lemma grows_set2:
  "at2 (revealed g) r c \<noteq> None \<Longrightarrow> grows g (g\<lparr>revealed := set2 (revealed g) r c True\<rparr>)"
  by (simp add: grows_def shaped_set2 at2_set2)

lemma reveal_body_grows:
  assumes "reveal_body g p stack = Inr (g', stack')"
  shows "grows g g'"
proof -
  obtain r c where p: "p = (r, c)" by (cases p)
  from assms have "g' = g \<or> (at2 (revealed g) r c \<noteq> None \<and> g' = g\<lparr>revealed := set2 (revealed g) r c True\<rparr>)"
    by (auto simp: p Let_def split: option.splits if_splits)
  then show ?thesis
    by (auto simp: grows_refl grows_set2)
qed

lemma reveal_loop_grows: "reveal_loop g stack = Inr g' \<Longrightarrow> grows g g'"
proof (induction g stack rule: reveal_loop.induct)
  case (1 g)
  then show ?case by (simp add: reveal_loop.simps grows_refl)
next
  case (2 g p stack)
  from "2.prems" obtain g1 stack1 where
    body: "reveal_body g p stack = Inr (g1, stack1)" and loop: "reveal_loop g1 stack1 = Inr g'"
    by (auto simp: reveal_loop.simps split: sum.splits)
  from "2.IH" [OF body refl loop] reveal_body_grows [OF body] show ?case
    by (blast intro: grows_trans)
qed

lemma reveal_grows: "reveal g row col = Inr g' \<Longrightarrow> grows g g'"
  by (auto simp: reveal_def grows_set2 reveal_loop_grows split: option.splits if_splits)

lemma grows_board_inv: "grows g g' \<Longrightarrow> board_inv g \<Longrightarrow> board_inv g'"
  by (simp add: grows_def board_inv_def)

lemma reachable_board_inv: "reachable g \<Longrightarrow> board_inv g"
  by (induction rule: reachable.induct)
     (auto intro: Minesweeper_Inr(1) grows_board_inv dest: reveal_grows)

section \<open>The cells pushed by the flood\<close>

lemma fold_push:
  "fold (\<lambda>j st. if P j then f j # st else st) js st = rev (map f (filter P js)) @ st"
  by (induction js arbitrary: st) auto

lemma fold_fold_push:
  "fold (\<lambda>i st. fold (\<lambda>j st. if P i j then f i j # st else st) js st) is st =
     rev (concat (map (\<lambda>i. map (f i) (filter (P i) js)) is)) @ st"
  by (induction "is" arbitrary: st) (auto simp: fold_push)

lemma set_concat_map_filter:
  "set (concat (map (\<lambda>i. map (f i) (filter (P i) js)) is)) =
     {f i j | i j. i \<in> set is \<and> j \<in> set js \<and> P i j}"
  by auto

lemma set_offsets: "set [- 1, 0, 1 :: int] = {i. \<bar>i\<bar> \<le> 1}"
  by auto

lemma in_push_neighbours:
  "(r', c') \<in> set (push_neighbours R C r c st) \<longleftrightarrow>
     (r', c') \<in> set st \<or>
     near (r, c) (r', c') \<and> 0 \<le> r' \<and> r' < R \<and> 0 \<le> c' \<and> c' < C"
proof -
  have "(r', c') \<in> set (push_neighbours R C r c st) \<longleftrightarrow>
      (r', c') \<in> set st \<or>
      (\<exists>i j. \<bar>i\<bar> \<le> 1 \<and> \<bar>j\<bar> \<le> 1 \<and> r + i \<ge> 0 \<and> r + i < R \<and> c + j \<ge> 0 \<and> c + j < C \<and>
         r' = r + i \<and> c' = c + j)"
    unfolding push_neighbours_def fold_fold_push set_append set_rev set_concat_map_filter
      set_offsets
    by blast
  also have "(\<exists>i j. \<bar>i\<bar> \<le> 1 \<and> \<bar>j\<bar> \<le> 1 \<and> r + i \<ge> 0 \<and> r + i < R \<and> c + j \<ge> 0 \<and> c + j < C \<and>
         r' = r + i \<and> c' = c + j) \<longleftrightarrow>
      near (r, c) (r', c') \<and> 0 \<le> r' \<and> r' < R \<and> 0 \<le> c' \<and> c' < C"
  proof
    assume "\<exists>i j. \<bar>i\<bar> \<le> 1 \<and> \<bar>j\<bar> \<le> 1 \<and> r + i \<ge> 0 \<and> r + i < R \<and> c + j \<ge> 0 \<and> c + j < C \<and>
         r' = r + i \<and> c' = c + j"
    then show "near (r, c) (r', c') \<and> 0 \<le> r' \<and> r' < R \<and> 0 \<le> c' \<and> c' < C"
      by (auto simp: near_def)
  next
    assume a: "near (r, c) (r', c') \<and> 0 \<le> r' \<and> r' < R \<and> 0 \<le> c' \<and> c' < C"
    show "\<exists>i j. \<bar>i\<bar> \<le> 1 \<and> \<bar>j\<bar> \<le> 1 \<and> r + i \<ge> 0 \<and> r + i < R \<and> c + j \<ge> 0 \<and> c + j < C \<and>
         r' = r + i \<and> c' = c + j"
      using a by (intro exI [of _ "r' - r"] exI [of _ "c' - c"]) (simp add: near_def)
  qed
  finally show ?thesis .
qed

section \<open>reveal returns on every cell of the board\<close>

lemma in_grid_minefield: "board_inv g \<Longrightarrow> at2 (minefield g) r c \<noteq> None \<longleftrightarrow> in_grid g r c"
  using at2_shaped [of "rows g" "cols g" "minefield g" r c]
  by (simp add: board_inv_def in_grid_def)

lemma in_grid_revealed: "board_inv g \<Longrightarrow> at2 (revealed g) r c \<noteq> None \<longleftrightarrow> in_grid g r c"
  using at2_shaped [of "rows g" "cols g" "revealed g" r c]
  by (simp add: board_inv_def in_grid_def)

lemma in_grid_counts: "board_inv g \<Longrightarrow> at2 (counts g) r c \<noteq> None \<longleftrightarrow> in_grid g r c"
  using at2_shaped [OF shaped_compute_counts, of "rows g" "cols g" "minefield g" r c]
  by (simp add: board_inv_def in_grid_def)

lemma grows_in_grid: "grows g g' \<Longrightarrow> in_grid g' r c = in_grid g r c"
  by (simp add: grows_def in_grid_def)

lemma reveal_body_cases:
  assumes "board_inv g" and "in_grid g r c"
  obtains (shown) "at2 (revealed g) r c = Some True" "reveal_body g (r, c) stack = Inr (g, stack)"
  | (number) n where "at2 (revealed g) r c = Some False" "at2 (counts g) r c = Some n" "n \<noteq> 0"
      "reveal_body g (r, c) stack = Inr (g\<lparr>revealed := set2 (revealed g) r c True\<rparr>, stack)"
  | (zero) "at2 (revealed g) r c = Some False" "at2 (counts g) r c = Some 0"
      "reveal_body g (r, c) stack =
         Inr (g\<lparr>revealed := set2 (revealed g) r c True\<rparr>, push_neighbours (rows g) (cols g) r c stack)"
proof -
  from assms obtain shown n where
    s: "at2 (revealed g) r c = Some shown" and n: "at2 (counts g) r c = Some n"
    using in_grid_revealed [of g r c] in_grid_counts [of g r c] by auto
  show ?thesis
  proof (cases shown)
    case True
    with s show ?thesis by (intro shown) simp_all
  next
    case False
    show ?thesis
    proof (cases "n = 0")
      case True
      with s n False show ?thesis by (intro zero) simp_all
    next
      case nz: False
      with s n False show ?thesis by (intro number [of n]) simp_all
    qed
  qed
qed

lemma reveal_loop_Inr:
  "board_inv g \<Longrightarrow> \<forall>(r, c) \<in> set stack. in_grid g r c \<Longrightarrow> \<exists>g'. reveal_loop g stack = Inr g'"
proof (induction g stack rule: reveal_loop.induct)
  case (1 g)
  then show ?case by (simp add: reveal_loop.simps)
next
  case (2 g p stack)
  obtain r c where p: "p = (r, c)" by (cases p)
  from "2.prems" p have grid: "in_grid g r c" and rest: "\<forall>(r, c) \<in> set stack. in_grid g r c"
    by auto
  from "2.prems"(1) grid obtain g1 stack1 where
    body: "reveal_body g p stack = Inr (g1, stack1)"
    and stack1: "stack1 = stack \<or> stack1 = push_neighbours (rows g) (cols g) r c stack"
    unfolding p by (cases rule: reveal_body_cases [where stack = stack]) auto
  have g1: "grows g g1"
    using body by (rule reveal_body_grows)
  from g1 "2.prems"(1) have inv1: "board_inv g1"
    by (rule grows_board_inv)
  from stack1 rest have "\<forall>(r, c) \<in> set stack1. in_grid g r c"
    by (auto simp: in_push_neighbours in_grid_def)
  with g1 have "\<forall>(r, c) \<in> set stack1. in_grid g1 r c"
    by (simp add: grows_in_grid)
  from "2.IH" [OF body refl inv1 this] body show ?case
    by (simp add: reveal_loop.simps)
qed

lemma reveal_Inr:
  assumes "board_inv g" and "in_grid g r c"
  shows "\<exists>g'. reveal g r c = Inr g'"
proof -
  from assms obtain mine shown where
    m: "at2 (minefield g) r c = Some mine" and s: "at2 (revealed g) r c = Some shown"
    using in_grid_minefield [of g r c] in_grid_revealed [of g r c] by auto
  from assms have "\<exists>g'. reveal_loop g [(r, c)] = Inr g'"
    by (intro reveal_loop_Inr) simp_all
  with m s show ?thesis
    by (simp add: reveal_def)
qed

lemma reveal_Inl:
  assumes "board_inv g" and "\<not> in_grid g r c"
  shows "reveal g r c = Inl Index_Out_Of_Range"
  using assms in_grid_minefield [of g r c] by (simp add: reveal_def)

section \<open>Concrete boards\<close>

lemma Minesweeper_3x3: "Minesweeper 3 3 1 [(0, 0)] = Some (Inr board_3x3)"
  by code_simp

lemma Minesweeper_2x2: "Minesweeper 2 2 2 [(0, 0), (0, 0), (1, 1)] = Some (Inr board_2x2)"
  by code_simp

lemma reachable_3x3: "reachable board_3x3"
  using Minesweeper_3x3 by (rule reachable.constructed)

lemma reachable_2x2: "reachable board_2x2"
  using Minesweeper_2x2 by (rule reachable.constructed)

lemma is_game_over_iff:
  "is_game_over g \<longleftrightarrow>
     (\<exists>r c. 0 \<le> r \<and> r < rows g \<and> 0 \<le> c \<and> c < cols g \<and>
        at2 (minefield g) r c = Some True \<and> at2 (revealed g) r c = Some True)"
  by (simp add: is_game_over_def list_ex_iff Bex_def)

section \<open>Revealing a mine\<close>

text \<open>
  Claim C9. For every in-bounds \<open>(r, c)\<close> with \<open>minefield[r][c] = true\<close>,
  \<open>reveal(r, c)\<close> sets \<open>revealed[r][c]\<close> to true and leaves the revealed flag of every
  other cell as it was (the mine layout and the counts too), and afterwards
  \<open>is_game_over()\<close> returns true.
\<close>

theorem reveal_mine:
  assumes "reachable g" and "0 \<le> r" and "r < rows g" and "0 \<le> c" and "c < cols g"
    and "at2 (minefield g) r c = Some True"
  shows "\<exists>g'. reveal g r c = Inr g' \<and>
           at2 (revealed g') r c = Some True \<and>
           (\<forall>r' c'. (r', c') \<noteq> (r, c) \<longrightarrow> at2 (revealed g') r' c' = at2 (revealed g) r' c') \<and>
           minefield g' = minefield g \<and> counts g' = counts g \<and>
           is_game_over g'"
proof -
  let ?g' = "g\<lparr>revealed := set2 (revealed g) r c True\<rparr>"
  from assms have inv: "board_inv g" and grid: "in_grid g r c"
    by (simp_all add: reachable_board_inv in_grid_def)
  then have shown: "at2 (revealed g) r c \<noteq> None"
    using in_grid_revealed [of g r c] by simp
  with assms(6) have "reveal g r c = Inr ?g'"
    by (auto simp: reveal_def)
  moreover have at: "at2 (revealed ?g') r' c' = (if r' = r \<and> c' = c then Some True else at2 (revealed g) r' c')"
    for r' c'
    using shown by (simp add: at2_set2)
  moreover have "is_game_over ?g'"
    unfolding is_game_over_iff using assms at by (intro exI [of _ r] exI [of _ c]) simp
  ultimately show ?thesis
    by (intro exI [of _ ?g']) auto
qed

theorem reveal_mine_witness:
  "\<exists>g'. reveal board_3x3 0 0 = Inr g' \<and>
      at2 (revealed g') 0 0 = Some True \<and>
      (\<forall>r' c'. (r', c') \<noteq> (0, 0) \<longrightarrow> at2 (revealed g') r' c' = at2 (revealed board_3x3) r' c') \<and>
      minefield g' = minefield board_3x3 \<and> counts g' = counts board_3x3 \<and>
      is_game_over g'"
  using reveal_mine [of board_3x3 0 0] reachable_3x3
  by (simp add: board_3x3_def at2_def)

section \<open>Out-of-range coordinates\<close>

text \<open>
  \<open>reveal\<close> begins with \<open>if (minefield[row][col])\<close> and tests no bound. On the 2x2 board
  the request \<open>(2, 0)\<close> indexes \<open>minefield\<close> outside the vector: the call has no defined
  behaviour, it does not return the unchanged state, and a session that sends \<open>2 0\<close>
  before its winning moves \<open>0 1\<close> and \<open>1 0\<close> does not go on to them.
\<close>

theorem reveal_out_of_range_counterexample:
  "reveal board_2x2 2 0 = Inl Index_Out_Of_Range \<and>
   reveal board_2x2 2 0 \<noteq> Inr board_2x2 \<and>
   main [2, 2, 2, 2, 0, 0, 1, 1, 0] [(0, 0), (1, 1)] = Some (Inl Index_Out_Of_Range)"
  by code_simp

text \<open>
  Claim C3, as the code has it. \<open>reveal\<close> makes no range check and reports no user
  error: for every \<open>(r, c)\<close> out of range (\<open>r < 0\<close>, \<open>r \<ge> R\<close>, \<open>c < 0\<close> or \<open>c \<ge> C\<close>)
  its first statement indexes \<open>minefield[r][c]\<close> outside the vector, which is
  undefined behaviour; no state is returned.
\<close>

theorem reveal_out_of_range:
  assumes "reachable g" and "r < 0 \<or> rows g \<le> r \<or> c < 0 \<or> cols g \<le> c"
  shows "reveal g r c = Inl Index_Out_Of_Range"
proof -
  from assms(1) have "board_inv g"
    by (rule reachable_board_inv)
  moreover from assms(2) have "\<not> in_grid g r c"
    by (auto simp: in_grid_def)
  ultimately show ?thesis
    by (rule reveal_Inl)
qed

theorem reveal_out_of_range_witness:
  "reveal board_2x2 (- 1) 1 = Inl Index_Out_Of_Range"
  using reveal_out_of_range [of board_2x2 "- 1" 1] reachable_2x2
  by (simp add: board_2x2_def)

section \<open>Idempotence\<close>

lemma set2_same: "at2 v r c = Some x \<Longrightarrow> set2 v r c x = v"
  by (auto simp: at2_def set2_def split: if_splits)

lemma reveal_shown:
  assumes "board_inv g" and "at2 (revealed g) r c = Some True"
  shows "reveal g r c = Inr g"
proof -
  from assms have "in_grid g r c"
    using in_grid_revealed [of g r c] by simp
  with assms obtain mine where m: "at2 (minefield g) r c = Some mine"
    using in_grid_minefield [of g r c] by auto
  have "reveal_loop g [(r, c)] = Inr g"
    using assms(2) by (simp add: reveal_loop.simps)
  with m assms(2) show ?thesis
    by (simp add: reveal_def set2_same)
qed

lemma reveal_loop_top:
  assumes "board_inv g" and "in_grid g r c" and "reveal_loop g ((r, c) # stack) = Inr g'"
  shows "at2 (revealed g') r c = Some True"
proof -
  from assms(3) obtain g1 stack1 where
    body: "reveal_body g (r, c) stack = Inr (g1, stack1)" and loop: "reveal_loop g1 stack1 = Inr g'"
    by (auto simp: reveal_loop.simps split: sum.splits)
  from assms(1,2) have "at2 (revealed g) r c \<noteq> None"
    using in_grid_revealed [of g r c] by simp
  with body have "at2 (revealed g1) r c = Some True"
    by (auto simp: Let_def at2_set2 split: option.splits if_splits)
  with reveal_loop_grows [OF loop] show ?thesis
    by (simp add: grows_def)
qed

lemma reveal_target_shown:
  assumes "board_inv g" and "reveal g r c = Inr g'"
  shows "at2 (revealed g') r c = Some True"
proof -
  from assms have grid: "in_grid g r c"
    using reveal_Inl [of g r c] by auto
  with assms(1) obtain mine shown where
    m: "at2 (minefield g) r c = Some mine" and s: "at2 (revealed g) r c = Some shown"
    using in_grid_minefield [of g r c] in_grid_revealed [of g r c] by auto
  show ?thesis
  proof (cases mine)
    case True
    with assms(2) m s have "g' = g\<lparr>revealed := set2 (revealed g) r c True\<rparr>"
      by (simp add: reveal_def)
    with s show ?thesis
      by (simp add: at2_set2)
  next
    case False
    with assms(2) m have "reveal_loop g [(r, c)] = Inr g'"
      by (simp add: reveal_def)
    with assms(1) grid show ?thesis
      by (rule reveal_loop_top)
  qed
qed

text \<open>
  Claim C7. \<open>reveal\<close> is idempotent: for every in-bounds \<open>(r, c)\<close> and every reachable
  state, \<open>reveal(r, c)\<close> returns, and a second \<open>reveal(r, c)\<close> right after it returns
  the very same state; in particular, revealing an already-revealed cell changes nothing.
\<close>

theorem reveal_idempotent:
  assumes "reachable g" and "0 \<le> r" and "r < rows g" and "0 \<le> c" and "c < cols g"
  shows "\<exists>g'. reveal g r c = Inr g' \<and> reveal g' r c = Inr g' \<and>
           (at2 (revealed g) r c = Some True \<longrightarrow> g' = g)"
proof -
  from assms have inv: "board_inv g" and grid: "in_grid g r c"
    by (simp_all add: reachable_board_inv in_grid_def)
  then obtain g' where g': "reveal g r c = Inr g'"
    using reveal_Inr by blast
  have inv': "board_inv g'"
    using reveal_grows [OF g'] inv by (rule grows_board_inv)
  have "at2 (revealed g') r c = Some True"
    using inv g' by (rule reveal_target_shown)
  with inv' have "reveal g' r c = Inr g'"
    by (rule reveal_shown)
  moreover have "g' = g" if "at2 (revealed g) r c = Some True"
    using reveal_shown [OF inv that] g' by simp
  ultimately show ?thesis
    using g' by blast
qed

theorem reveal_idempotent_witness:
  "\<exists>g'. reveal board_3x3 2 2 = Inr g' \<and> reveal g' 2 2 = Inr g' \<and>
      (at2 (revealed board_3x3) 2 2 = Some True \<longrightarrow> g' = board_3x3)"
  using reveal_idempotent [of board_3x3 2 2] reachable_3x3
  by (simp add: board_3x3_def)

section \<open>The revealed flags only grow\<close>

lemma reveal_all_append:
  "reveal_all g (cells @ cells') =
     (case reveal_all g cells of Inl e \<Rightarrow> Inl e | Inr g' \<Rightarrow> reveal_all g' cells')"
  by (induction g cells rule: reveal_all.induct) (auto split: sum.splits)

lemma reveal_all_grows: "reveal_all g cells = Inr g' \<Longrightarrow> grows g g'"
proof (induction g cells rule: reveal_all.induct)
  case (1 g)
  then show ?case by (simp add: grows_refl)
next
  case (2 g row col cells)
  from "2.prems" obtain g1 where
    first: "reveal g row col = Inr g1" and rest: "reveal_all g1 cells = Inr g'"
    by (auto split: sum.splits)
  from reveal_grows [OF first] "2.IH" [OF first rest] show ?case
    by (rule grows_trans)
qed

lemma reveal_all_Inr:
  "board_inv g \<Longrightarrow> \<forall>(r, c) \<in> set cells. in_grid g r c \<Longrightarrow> \<exists>g'. reveal_all g cells = Inr g'"
proof (induction g cells rule: reveal_all.induct)
  case (1 g)
  then show ?case by simp
next
  case (2 g row col cells)
  from "2.prems" obtain g1 where first: "reveal g row col = Inr g1"
    using reveal_Inr [of g row col] by auto
  have g1: "grows g g1"
    using first by (rule reveal_grows)
  then have "board_inv g1"
    using "2.prems"(1) by (rule grows_board_inv)
  moreover from "2.prems"(2) g1 have "\<forall>(r, c) \<in> set cells. in_grid g1 r c"
    by (auto simp: grows_in_grid)
  ultimately show ?case
    using "2.IH" [OF first] first by simp
qed

text \<open>
  Claim C8. The revealed bitmap is monotone: every cell starts hidden, and for every
  sequence of \<open>reveal\<close> calls on in-bounds coordinates, cut at any point into
  \<open>cells\<close> and \<open>cells'\<close>, all the calls return and a cell that is revealed after
  \<open>cells\<close> is still revealed after \<open>cells'\<close>.
\<close>

theorem revealed_monotone:
  assumes "Minesweeper R C M draws = Some (Inr g0)"
    and "\<forall>(r, c) \<in> set (cells @ cells'). 0 \<le> r \<and> r < R \<and> 0 \<le> c \<and> c < C"
  shows "\<exists>g g'. reveal_all g0 cells = Inr g \<and> reveal_all g cells' = Inr g' \<and>
           reveal_all g0 (cells @ cells') = Inr g' \<and>
           (\<forall>r c. at2 (revealed g0) r c \<noteq> Some True) \<and>
           (\<forall>r c. at2 (revealed g) r c = Some True \<longrightarrow> at2 (revealed g') r c = Some True)"
proof -
  note g0 = Minesweeper_Inr [OF assms(1)]
  from assms(2) g0(2,3) have grid: "\<forall>(r, c) \<in> set (cells @ cells'). in_grid g0 r c"
    by (auto simp: in_grid_def)
  with g0(1) obtain g where g: "reveal_all g0 cells = Inr g"
    using reveal_all_Inr [of g0 cells] by auto
  have gr: "grows g0 g"
    using g by (rule reveal_all_grows)
  then have "board_inv g"
    using g0(1) by (rule grows_board_inv)
  moreover from grid gr have "\<forall>(r, c) \<in> set cells'. in_grid g r c"
    by (auto simp: grows_in_grid)
  ultimately obtain g' where g': "reveal_all g cells' = Inr g'"
    using reveal_all_Inr by blast
  have "at2 (revealed g0) r c \<noteq> Some True" for r c
    unfolding g0(5) by (simp add: at2_replicate)
  moreover have "at2 (revealed g) r c = Some True \<longrightarrow> at2 (revealed g') r c = Some True" for r c
    using reveal_all_grows [OF g'] by (simp add: grows_def)
  ultimately show ?thesis
    using g g' by (simp add: reveal_all_append)
qed

theorem revealed_monotone_witness:
  "\<exists>g g'. reveal_all board_3x3 [(0, 1)] = Inr g \<and> reveal_all g [(0, 0), (2, 2)] = Inr g' \<and>
      reveal_all board_3x3 ([(0, 1)] @ [(0, 0), (2, 2)]) = Inr g' \<and>
      (\<forall>r c. at2 (revealed board_3x3) r c \<noteq> Some True) \<and>
      (\<forall>r c. at2 (revealed g) r c = Some True \<longrightarrow> at2 (revealed g') r c = Some True)"
  using revealed_monotone [of 3 3 1 "[(0, 0)]" board_3x3 "[(0, 1)]" "[(0, 0), (2, 2)]"]
    Minesweeper_3x3
  by simp

section \<open>The counts\<close>

lemma fold_count:
  "fold (\<lambda>j (n::int). if P j then n + 1 else n) js n = n + (\<Sum>j\<leftarrow>js. if P j then 1 else 0)"
  by (induction js arbitrary: n) auto

lemma fold_fold_count:
  "fold (\<lambda>i (n::int). fold (\<lambda>j n. if P i j then n + 1 else n) js n) is n =
     n + (\<Sum>i\<leftarrow>is. \<Sum>j\<leftarrow>js. if P i j then 1 else 0)"
  by (induction "is" arbitrary: n) (auto simp: fold_count)

lemma sum_indicator_card:
  assumes "finite A"
  shows "(\<Sum>x\<in>A. if P x then 1 else 0) = int (card {x \<in> A. P x})"
proof -
  have "(\<Sum>x\<in>A. if P x then 1 else 0 :: int) = (\<Sum>x\<in>{x \<in> A. P x}. 1)"
    using assms by (simp add: sum.inter_filter [symmetric])
  then show ?thesis by simp
qed

lemma finite_block: "finite block"
proof -
  have "{i :: int. \<bar>i\<bar> \<le> 1} = set [- 1, 0, 1]"
    by (simp only: set_offsets)
  then show ?thesis
    unfolding block_def by (metis finite_SigmaI List.finite_set)
qed

lemma count_offsets:
  "(\<Sum>i\<leftarrow>[- 1, 0, 1 :: int]. \<Sum>j\<leftarrow>[- 1, 0, 1 :: int]. if P i j then 1 else 0) =
     int (card {(i, j). (i, j) \<in> block \<and> P i j})"
proof -
  let ?I = "{i :: int. \<bar>i\<bar> \<le> 1}"
  have d: "distinct [- 1, 0, 1 :: int]" by simp
  have "(\<Sum>i\<leftarrow>[- 1, 0, 1 :: int]. \<Sum>j\<leftarrow>[- 1, 0, 1 :: int]. if P i j then 1 else 0 :: int) =
      (\<Sum>i\<in>?I. \<Sum>j\<in>?I. if P i j then 1 else 0)"
    unfolding sum_list_distinct_conv_sum_set [OF d] set_offsets ..
  also have "\<dots> = (\<Sum>p\<in>block. if P (fst p) (snd p) then 1 else 0)"
    unfolding block_def by (simp add: sum.cartesian_product case_prod_unfold)
  also have "\<dots> = int (card {p \<in> block. P (fst p) (snd p)})"
    using finite_block by (rule sum_indicator_card)
  also have "{p \<in> block. P (fst p) (snd p)} = {(i, j). (i, j) \<in> block \<and> P i j}"
    by auto
  finally show ?thesis .
qed

lemma count_mines_card:
  "count_mines R C field row col = int (card (mines_around R C field (row, col)))"
proof -
  let ?P = "\<lambda>i j. row + i \<ge> 0 \<and> row + i < R \<and> col + j \<ge> 0 \<and> col + j < C \<and>
    at2 field (row + i) (col + j) = Some True"
  let ?S = "{(i, j). (i, j) \<in> block \<and> ?P i j}"
  let ?f = "\<lambda>(i, j). (row + i, col + j)"
  have "count_mines R C field row col = int (card ?S)"
    unfolding count_mines_def fold_fold_count count_offsets by simp
  also have "card ?S = card (?f ` ?S)"
    by (rule card_image [symmetric]) (auto simp: inj_on_def)
  also have "?f ` ?S = mines_around R C field (row, col)"
  proof (intro set_eqI iffI)
    fix q assume "q \<in> ?f ` ?S"
    then show "q \<in> mines_around R C field (row, col)"
      by (auto simp: mines_around_def near_def block_def)
  next
    fix q assume q: "q \<in> mines_around R C field (row, col)"
    then have "(fst q - row, snd q - col) \<in> ?S"
      by (simp add: mines_around_def near_def block_def)
    then have "?f (fst q - row, snd q - col) \<in> ?f ` ?S"
      by (rule imageI)
    then show "q \<in> ?f ` ?S"
      by simp
  qed
  finally show ?thesis .
qed

lemma finite_mines_around: "finite (mines_around R C field p)"
proof -
  have "mines_around R C field p \<subseteq> (\<lambda>(i, j). (fst p + i, snd p + j)) ` block"
  proof
    fix q assume "q \<in> mines_around R C field p"
    then have "(fst q - fst p, snd q - snd p) \<in> block"
      by (simp add: mines_around_def near_def block_def)
    then have "(\<lambda>(i, j). (fst p + i, snd p + j)) (fst q - fst p, snd q - snd p)
        \<in> (\<lambda>(i, j). (fst p + i, snd p + j)) ` block"
      by (rule imageI)
    then show "q \<in> (\<lambda>(i, j). (fst p + i, snd p + j)) ` block"
      by simp
  qed
  then show ?thesis
    using finite_block by (blast intro: finite_subset)
qed

lemma mines_around_moore:
  assumes "at2 field (fst p) (snd p) \<noteq> Some True"
  shows "mines_around R C field p = {q \<in> moore R C p. at2 field (fst q) (snd q) = Some True}"
proof (intro set_eqI iffI)
  fix q assume q: "q \<in> mines_around R C field p"
  then have "q \<noteq> p"
    using assms by (auto simp: mines_around_def)
  then have "(fst q - fst p, snd q - snd p) \<noteq> (0, 0)"
    by (simp add: prod_eq_iff)
  moreover from q have "fst q - fst p \<in> {- 1, 0, 1}" "snd q - snd p \<in> {- 1, 0, 1}"
    by (auto simp: mines_around_def near_def)
  ultimately have "(fst q - fst p, snd q - snd p) \<in> {- 1, 0, 1} \<times> {- 1, 0, 1} - {(0, 0)}"
    by blast
  then have "(\<lambda>(i, j). (fst p + i, snd p + j)) (fst q - fst p, snd q - snd p)
      \<in> (\<lambda>(i, j). (fst p + i, snd p + j)) ` ({- 1, 0, 1} \<times> {- 1, 0, 1} - {(0, 0)})"
    by (rule imageI)
  then have "q \<in> (\<lambda>(i, j). (fst p + i, snd p + j)) ` ({- 1, 0, 1} \<times> {- 1, 0, 1} - {(0, 0)})"
    by simp
  with q show "q \<in> {q \<in> moore R C p. at2 field (fst q) (snd q) = Some True}"
    by (simp add: moore_def mines_around_def mem_Times_iff)
next
  fix q assume "q \<in> {q \<in> moore R C p. at2 field (fst q) (snd q) = Some True}"
  then show "q \<in> mines_around R C field p"
    by (auto simp: moore_def mines_around_def near_def)
qed

lemma at2_compute_counts:
  assumes "0 \<le> r" and "r < R" and "0 \<le> c" and "c < C"
  shows "at2 (compute_counts R C field) r c =
           Some (if at2 field r c = Some True then - 1 else count_mines R C field r c)"
proof -
  from assms have r: "nat r < length [0..R - 1]" "[0..R - 1] ! nat r = r"
    and c: "nat c < length [0..C - 1]" "[0..C - 1] ! nat c = c"
    by (simp_all add: nth_upto)
  from assms have "at2 (compute_counts R C field) r c = Some (compute_counts R C field ! nat r ! nat c)"
    using at2_shaped [OF shaped_compute_counts, of R C field r c] by simp
  also have "compute_counts R C field ! nat r ! nat c =
      (if at2 field r c = Some True then - 1 else count_mines R C field r c)"
    unfolding compute_counts_def using r c by simp
  finally show ?thesis .
qed

lemma counts_at:
  assumes "board_inv g" and "in_grid g r c"
  shows "at2 (counts g) r c =
           Some (if at2 (minefield g) r c = Some True then - 1
                 else int (card (mines_around (rows g) (cols g) (minefield g) (r, c))))"
  using assms at2_compute_counts [of r "rows g" c "cols g" "minefield g"]
  by (simp add: board_inv_def in_grid_def count_mines_card)

text \<open>
  Claim C1. After construction, for every non-mine cell \<open>(r, c)\<close> of the board,
  \<open>counts[r][c]\<close> is the number of mine cells among the up-to-8 in-bounds neighbours in
  the Moore neighbourhood of \<open>(r, c)\<close>, the cell itself excluded.
\<close>

theorem counts_correct:
  assumes "Minesweeper R C M draws = Some (Inr g)"
    and "0 \<le> r" and "r < R" and "0 \<le> c" and "c < C"
    and "at2 (minefield g) r c = Some False"
  shows "at2 (counts g) r c =
           Some (int (card {q \<in> moore R C (r, c). at2 (minefield g) (fst q) (snd q) = Some True}))"
proof -
  note g = Minesweeper_Inr [OF assms(1)]
  from assms g have "in_grid g r c"
    by (simp add: in_grid_def)
  with g(1) assms(6) have "at2 (counts g) r c =
      Some (int (card (mines_around R C (minefield g) (r, c))))"
    by (simp add: counts_at g)
  moreover from assms(6) have "mines_around R C (minefield g) (r, c) =
      {q \<in> moore R C (r, c). at2 (minefield g) (fst q) (snd q) = Some True}"
    by (intro mines_around_moore) simp
  ultimately show ?thesis by simp
qed

lemma moore_2x2: "moore 2 2 (0, 1) = {(0, 0), (1, 0), (1, 1)}"
  by code_simp

theorem counts_correct_witness:
  "at2 (counts board_2x2) 0 1 =
     Some (int (card {q \<in> moore 2 2 (0, 1). at2 (minefield board_2x2) (fst q) (snd q) = Some True})) \<and>
   at2 (counts board_2x2) 0 1 = Some 2"
  using counts_correct [of 2 2 2 "[(0, 0), (0, 0), (1, 1)]" board_2x2 0 1] Minesweeper_2x2
  by (simp add: board_2x2_def at2_def)

section \<open>The flood reveals no mine\<close>

lemma zero_count_no_mine:
  assumes "board_inv g" and "in_grid g r c" and "at2 (minefield g) r c = Some False"
    and "at2 (counts g) r c = Some 0"
    and "near (r, c) (r', c')" and "in_grid g r' c'"
  shows "at2 (minefield g) r' c' = Some False"
proof -
  from assms(1-4) have "card (mines_around (rows g) (cols g) (minefield g) (r, c)) = 0"
    by (simp add: counts_at)
  then have "mines_around (rows g) (cols g) (minefield g) (r, c) = {}"
    using finite_mines_around by simp
  with assms(5,6) have "at2 (minefield g) r' c' \<noteq> Some True"
    by (auto simp: mines_around_def in_grid_def)
  moreover from assms(1,6) have "at2 (minefield g) r' c' \<noteq> None"
    using in_grid_minefield [of g r' c'] by simp
  ultimately show ?thesis
    by (cases "at2 (minefield g) r' c'") auto
qed

lemma reveal_loop_safe:
  "board_inv g \<Longrightarrow>
   \<forall>(r, c) \<in> set stack. in_grid g r c \<and> at2 (minefield g) r c = Some False \<Longrightarrow>
   reveal_loop g stack = Inr g' \<Longrightarrow>
   at2 (revealed g') r' c' = Some True \<Longrightarrow>
   at2 (revealed g) r' c' = Some True \<or> at2 (minefield g) r' c' = Some False"
proof (induction g stack rule: reveal_loop.induct)
  case (1 g)
  then show ?case by (simp add: reveal_loop.simps)
next
  case (2 g p stack)
  obtain r c where p: "p = (r, c)" by (cases p)
  from "2.prems"(2) p have grid: "in_grid g r c" and safe: "at2 (minefield g) r c = Some False"
    and rest: "\<forall>(r, c) \<in> set stack. in_grid g r c \<and> at2 (minefield g) r c = Some False"
    by auto
  from "2.prems"(3) obtain g1 stack1 where
    body: "reveal_body g p stack = Inr (g1, stack1)" and loop: "reveal_loop g1 stack1 = Inr g'"
    by (auto simp: reveal_loop.simps split: sum.splits)
  have gr: "grows g g1"
    using body by (rule reveal_body_grows)
  then have inv1: "board_inv g1"
    using "2.prems"(1) by (rule grows_board_inv)
  from gr have same: "minefield g1 = minefield g" "\<And>r c. in_grid g1 r c = in_grid g r c"
    by (simp_all add: grows_def in_grid_def)
  from "2.prems"(1) grid
  have "(\<forall>(r, c) \<in> set stack1. in_grid g r c \<and> at2 (minefield g) r c = Some False) \<and>
        (at2 (revealed g1) r' c' = Some True \<longrightarrow>
           at2 (revealed g) r' c' = Some True \<or> (r', c') = (r, c))"
  proof (cases rule: reveal_body_cases [where stack = stack])
    case shown
    with body p rest show ?thesis by simp
  next
    case (number n)
    with body p rest show ?thesis by (auto simp: at2_set2 split: if_splits)
  next
    case zero
    have "in_grid g a b \<and> at2 (minefield g) a b = Some False"
      if "(a, b) \<in> set (push_neighbours (rows g) (cols g) r c stack)" for a b
    proof (cases "(a, b) \<in> set stack")
      case True
      with rest show ?thesis by auto
    next
      case False
      with that have n: "near (r, c) (a, b)" and ab: "in_grid g a b"
        by (simp_all add: in_push_neighbours in_grid_def)
      with zero_count_no_mine [OF "2.prems"(1) grid safe zero(2) n ab] show ?thesis
        by simp
    qed
    with zero body p show ?thesis by (auto simp: at2_set2 split: if_splits)
  qed
  then have stack1: "\<forall>(r, c) \<in> set stack1. in_grid g1 r c \<and> at2 (minefield g1) r c = Some False"
    and new: "at2 (revealed g1) r' c' = Some True \<Longrightarrow>
      at2 (revealed g) r' c' = Some True \<or> (r', c') = (r, c)"
    by (simp_all add: same)
  from "2.IH" [OF body refl inv1 stack1 loop "2.prems"(4)]
  have "at2 (revealed g1) r' c' = Some True \<or> at2 (minefield g) r' c' = Some False"
    by (simp add: same)
  with new safe show ?case
    by auto
qed

text \<open>
  Claim C4. For every in-bounds \<open>(r, c)\<close> with \<open>minefield[r][c] = false\<close>, \<open>reveal(r, c)\<close>
  reveals no mine: every cell whose revealed flag changes from false to true is a
  non-mine cell, so \<open>is_game_over()\<close> stays false if it was false before the call.
\<close>

theorem flood_safe:
  assumes "reachable g" and "0 \<le> r" and "r < rows g" and "0 \<le> c" and "c < cols g"
    and "at2 (minefield g) r c = Some False"
  shows "\<exists>g'. reveal g r c = Inr g' \<and>
           (\<forall>r' c'. at2 (revealed g) r' c' = Some False \<and> at2 (revealed g') r' c' = Some True \<longrightarrow>
              at2 (minefield g) r' c' = Some False) \<and>
           minefield g' = minefield g \<and>
           (\<not> is_game_over g \<longrightarrow> \<not> is_game_over g')"
proof -
  from assms have inv: "board_inv g" and grid: "in_grid g r c"
    by (simp_all add: reachable_board_inv in_grid_def)
  then obtain g' where g': "reveal g r c = Inr g'"
    using reveal_Inr by blast
  with assms(6) have loop: "reveal_loop g [(r, c)] = Inr g'"
    by (simp add: reveal_def)
  have gr: "grows g g'"
    using g' by (rule reveal_grows)
  have new: "at2 (revealed g) r' c' = Some True \<or> at2 (minefield g) r' c' = Some False"
    if "at2 (revealed g') r' c' = Some True" for r' c'
    using inv _ loop that by (rule reveal_loop_safe) (simp add: grid assms(6))
  have "is_game_over g" if "is_game_over g'"
  proof -
    from that obtain a b where ab: "0 \<le> a" "a < rows g'" "0 \<le> b" "b < cols g'"
      "at2 (minefield g') a b = Some True" "at2 (revealed g') a b = Some True"
      unfolding is_game_over_iff by blast
    with new [of a b] gr have "at2 (revealed g) a b = Some True"
      by (auto simp: grows_def)
    with ab gr show ?thesis
      unfolding is_game_over_iff by (auto simp: grows_def)
  qed
  moreover have "at2 (minefield g) r' c' = Some False"
    if "at2 (revealed g) r' c' = Some False" "at2 (revealed g') r' c' = Some True" for r' c'
    using new [OF that(2)] that(1) by simp
  ultimately show ?thesis
    using g' gr by (intro exI [of _ g']) (auto simp: grows_def)
qed

theorem flood_safe_witness:
  "\<exists>g'. reveal board_3x3 2 2 = Inr g' \<and>
      (\<forall>r' c'. at2 (revealed board_3x3) r' c' = Some False \<and> at2 (revealed g') r' c' = Some True \<longrightarrow>
         at2 (minefield board_3x3) r' c' = Some False) \<and>
      minefield g' = minefield board_3x3 \<and>
      \<not> is_game_over board_3x3 \<and> \<not> is_game_over g'"
proof -
  have "\<not> is_game_over board_3x3"
    by code_simp
  with flood_safe [of board_3x3 2 2] reachable_3x3 show ?thesis
    by (auto simp: board_3x3_def at2_def)
qed

section \<open>The flood reaches every zero region and its border\<close>

lemma flood_closed_body:
  assumes inv: "board_inv g" and grid: "in_grid g r c"
    and closed: "flood_closed g ((r, c) # stack)"
    and body: "reveal_body g (r, c) stack = Inr (g1, stack1)"
  shows "flood_closed g1 stack1"
proof -
  from inv grid have shown: "at2 (revealed g) r c \<noteq> None"
    using in_grid_revealed [of g r c] by simp
  from inv grid show ?thesis
  proof (cases rule: reveal_body_cases [where stack = stack])
    case shown
    with body closed show ?thesis
      unfolding flood_closed_def by auto
  next
    case (number n)
    with body have g1: "g1 = g\<lparr>revealed := set2 (revealed g) r c True\<rparr>" and s: "stack1 = stack"
      by simp_all
    show ?thesis
      unfolding flood_closed_def
    proof (intro allI impI)
      fix a b a' b'
      assume h: "at2 (revealed g1) a b = Some True \<and> at2 (counts g1) a b = Some 0 \<and>
        near (a, b) (a', b') \<and> in_grid g1 a' b'"
      with number g1 shown have "(a, b) \<noteq> (r, c)" "at2 (revealed g) a b = Some True"
        by (auto simp: at2_set2 split: if_splits)
      with h closed g1 have "at2 (revealed g) a' b' = Some True \<or> (a', b') \<in> set ((r, c) # stack)"
        unfolding flood_closed_def by (simp add: in_grid_def) blast
      with g1 s shown show "at2 (revealed g1) a' b' = Some True \<or> (a', b') \<in> set stack1"
        by (auto simp: at2_set2)
    qed
  next
    case zero
    with body have g1: "g1 = g\<lparr>revealed := set2 (revealed g) r c True\<rparr>"
      and s: "stack1 = push_neighbours (rows g) (cols g) r c stack"
      by simp_all
    show ?thesis
      unfolding flood_closed_def
    proof (intro allI impI)
      fix a b a' b'
      assume h: "at2 (revealed g1) a b = Some True \<and> at2 (counts g1) a b = Some 0 \<and>
        near (a, b) (a', b') \<and> in_grid g1 a' b'"
      show "at2 (revealed g1) a' b' = Some True \<or> (a', b') \<in> set stack1"
      proof (cases "(a, b) = (r, c)")
        case True
        with h g1 have "(a', b') \<in> set stack1"
          unfolding s by (simp add: in_push_neighbours in_grid_def)
        then show ?thesis ..
      next
        case False
        with h g1 shown have "at2 (revealed g) a b = Some True"
          by (auto simp: at2_set2 split: if_splits)
        with h closed g1 have "at2 (revealed g) a' b' = Some True \<or> (a', b') \<in> set ((r, c) # stack)"
          unfolding flood_closed_def by (simp add: in_grid_def) blast
        with g1 shown show ?thesis
          unfolding s by (auto simp: at2_set2 in_push_neighbours)
      qed
    qed
  qed
qed

lemma reveal_loop_closed:
  "board_inv g \<Longrightarrow> \<forall>(r, c) \<in> set stack. in_grid g r c \<Longrightarrow> flood_closed g stack \<Longrightarrow>
   reveal_loop g stack = Inr g' \<Longrightarrow> flood_closed g' []"
proof (induction g stack rule: reveal_loop.induct)
  case (1 g)
  then show ?case by (simp add: reveal_loop.simps)
next
  case (2 g p stack)
  obtain r c where p: "p = (r, c)" by (cases p)
  from "2.prems"(2) p have grid: "in_grid g r c" and rest: "\<forall>(r, c) \<in> set stack. in_grid g r c"
    by auto
  from "2.prems"(4) obtain g1 stack1 where
    body: "reveal_body g p stack = Inr (g1, stack1)" and loop: "reveal_loop g1 stack1 = Inr g'"
    by (auto simp: reveal_loop.simps split: sum.splits)
  have gr: "grows g g1"
    using body by (rule reveal_body_grows)
  then have inv1: "board_inv g1"
    using "2.prems"(1) by (rule grows_board_inv)
  from "2.prems"(1) grid have "stack1 = stack \<or> stack1 = push_neighbours (rows g) (cols g) r c stack"
    using body unfolding p by (cases rule: reveal_body_cases [where stack = stack]) auto
  with rest have "\<forall>(r, c) \<in> set stack1. in_grid g r c"
    by (auto simp: in_push_neighbours in_grid_def)
  with gr have stack1: "\<forall>(r, c) \<in> set stack1. in_grid g1 r c"
    by (simp add: grows_in_grid)
  have "flood_closed g1 stack1"
    using "2.prems"(1) grid "2.prems"(3) body unfolding p by (rule flood_closed_body)
  with "2.IH" [OF body refl inv1 stack1 _ loop] show ?case
    by simp
qed

lemma flood_closed_weaken: "flood_closed g stack \<Longrightarrow> set stack \<subseteq> set stack' \<Longrightarrow> flood_closed g stack'"
  unfolding flood_closed_def by blast

lemma reveal_closed:
  assumes inv: "board_inv g" and closed: "flood_closed g []" and g': "reveal g r c = Inr g'"
  shows "flood_closed g' []"
proof -
  from inv g' have grid: "in_grid g r c"
    using reveal_Inl [of g r c] by auto
  with inv obtain mine where m: "at2 (minefield g) r c = Some mine"
    using in_grid_minefield [of g r c] by auto
  from inv grid have shown: "at2 (revealed g) r c \<noteq> None"
    using in_grid_revealed [of g r c] by simp
  show ?thesis
  proof (cases mine)
    case True
    with g' m shown have eq: "g' = g\<lparr>revealed := set2 (revealed g) r c True\<rparr>"
      by (auto simp: reveal_def)
    from inv grid m True have count: "at2 (counts g) r c = Some (- 1)"
      by (simp add: counts_at)
    show ?thesis
      unfolding flood_closed_def
    proof (intro allI impI)
      fix a b a' b'
      assume h: "at2 (revealed g') a b = Some True \<and> at2 (counts g') a b = Some 0 \<and>
        near (a, b) (a', b') \<and> in_grid g' a' b'"
      with eq count shown have "at2 (revealed g) a b = Some True"
        by (auto simp: at2_set2 split: if_splits)
      with h closed eq have "at2 (revealed g) a' b' = Some True"
        unfolding flood_closed_def by (simp add: in_grid_def) blast
      with eq shown show "at2 (revealed g') a' b' = Some True \<or> (a', b') \<in> set []"
        by (simp add: at2_set2)
    qed
  next
    case False
    with g' m have loop: "reveal_loop g [(r, c)] = Inr g'"
      by (simp add: reveal_def)
    from closed have "flood_closed g [(r, c)]"
      by (rule flood_closed_weaken) simp
    with inv show ?thesis
      using loop by (intro reveal_loop_closed [of g "[(r, c)]" g']) (simp_all add: grid)
  qed
qed

lemma constructed_closed:
  assumes "Minesweeper R C M draws = Some (Inr g)"
  shows "flood_closed g []"
  unfolding flood_closed_def Minesweeper_Inr(5) [OF assms]
  by (simp add: at2_replicate)

lemma reachable_closed: "reachable g \<Longrightarrow> flood_closed g []"
proof (induction rule: reachable.induct)
  case (constructed R C M draws g)
  then show ?case by (rule constructed_closed)
next
  case (revealing g row col g')
  from reachable_board_inv [OF revealing(1)] revealing(3,2) show ?case
    by (rule reveal_closed)
qed

lemma flood_path_revealed:
  assumes "flood_closed g []"
  shows "flood_path g p qs \<Longrightarrow> at2 (revealed g) (fst p) (snd p) = Some True \<Longrightarrow>
    \<forall>q \<in> set qs. at2 (revealed g) (fst q) (snd q) = Some True"
proof (induction qs arbitrary: p)
  case Nil
  then show ?case by simp
next
  case (Cons q qs)
  from Cons.prems assms have "at2 (revealed g) (fst q) (snd q) = Some True"
    unfolding flood_closed_def
    by (cases p, cases q) (simp, blast)
  with Cons.IH [of q] Cons.prems show ?case
    by simp
qed

lemma flood_path_grows: "grows g g' \<Longrightarrow> flood_path g p qs = flood_path g' p qs"
  by (induction qs arbitrary: p) (simp_all add: grows_def in_grid_def)

text \<open>
  The sentence read by the letter fails where the flood does not start: on the 2x2 board
  with mines at \<open>(0, 0)\<close> and \<open>(1, 1)\<close>, \<open>reveal(0, 1)\<close> finds count 2 and reveals that
  cell alone. The neighbour \<open>(1, 0)\<close> is reached by a path with no cell strictly between
  its ends, and stays hidden.
\<close>

theorem flood_closure_counterexample:
  "reachable board_2x2 \<and> at2 (minefield board_2x2) 0 1 = Some False \<and>
   interior_zero_path board_2x2 (0, 1) [(1, 0)] \<and>
   reveal board_2x2 0 1 = Inr (board_2x2\<lparr>revealed := [[False, True], [False, False]]\<rparr>) \<and>
   at2 (revealed (board_2x2\<lparr>revealed := [[False, True], [False, False]]\<rparr>)) 1 0 = Some False"
proof -
  have "at2 (minefield board_2x2) 0 1 = Some False \<and>
   interior_zero_path board_2x2 (0, 1) [(1, 0)] \<and>
   reveal board_2x2 0 1 = Inr (board_2x2\<lparr>revealed := [[False, True], [False, False]]\<rparr>) \<and>
   at2 (revealed (board_2x2\<lparr>revealed := [[False, True], [False, False]]\<rparr>)) 1 0 = Some False"
    by code_simp
  with reachable_2x2 show ?thesis by simp
qed

text \<open>
  Claim C5, as the code has it. For every in-bounds non-mine cell \<open>(r, c)\<close>, after
  \<open>reveal(r, c)\<close> every cell is revealed that is reached from \<open>(r, c)\<close> by a path under
  Moore-neighbourhood adjacency on which every cell but the last, the start \<open>(r, c)\<close>
  included, has count 0. In particular, revealing any cell of a connected zero-count
  region reveals the whole region together with its numbered border.
\<close>

theorem flood_closure:
  assumes "reachable g" and "0 \<le> r" and "r < rows g" and "0 \<le> c" and "c < cols g"
    and "at2 (minefield g) r c = Some False"
    and "flood_path g (r, c) qs"
  shows "\<exists>g'. reveal g r c = Inr g' \<and>
           (\<forall>q \<in> set ((r, c) # qs). at2 (revealed g') (fst q) (snd q) = Some True)"
proof -
  from assms have inv: "board_inv g" and grid: "in_grid g r c"
    by (simp_all add: reachable_board_inv in_grid_def)
  then obtain g' where g': "reveal g r c = Inr g'"
    using reveal_Inr by blast
  have "reachable g'"
    using assms(1) g' by (rule reachable.revealing)
  then have closed: "flood_closed g' []"
    by (rule reachable_closed)
  have start: "at2 (revealed g') r c = Some True"
    using inv g' by (rule reveal_target_shown)
  have "flood_path g' (r, c) qs"
    using assms(7) flood_path_grows [OF reveal_grows [OF g']] by simp
  from flood_path_revealed [OF closed this] start g' show ?thesis
    by simp
qed

theorem flood_closure_witness:
  "flood_path board_3x3 (2, 2) [(1, 2), (0, 2), (0, 1)] \<and>
   (\<exists>g'. reveal board_3x3 2 2 = Inr g' \<and>
      at2 (revealed g') 2 2 = Some True \<and> at2 (revealed g') 1 2 = Some True \<and>
      at2 (revealed g') 0 2 = Some True \<and> at2 (revealed g') 0 1 = Some True)"
proof -
  have path: "flood_path board_3x3 (2, 2) [(1, 2), (0, 2), (0, 1)]"
    by code_simp
  have "at2 (minefield board_3x3) 2 2 = Some False" "rows board_3x3 = 3" "cols board_3x3 = 3"
    by (simp_all add: board_3x3_def at2_def)
  with flood_closure [of board_3x3 2 2 "[(1, 2), (0, 2), (0, 1)]"] reachable_3x3 path
  show ?thesis
    by simp
qed

section \<open>The loop of reveal terminates\<close>

lemma reveal_loop_bounded_enough:
  "reveal_measure (g, stack) \<le> n \<Longrightarrow>
     \<exists>pushes. reveal_loop_bounded n g stack = Some (reveal_loop g stack, pushes) \<and>
       pushes \<le> 9 * hidden (revealed g)"
proof (induction g stack arbitrary: n rule: reveal_loop.induct)
  case (1 g)
  then show ?case by (simp add: reveal_loop.simps)
next
  case (2 g p stack)
  from "2.prems" obtain m where n: "n = Suc m"
    by (cases n) (simp_all add: reveal_measure_def)
  show ?case
  proof (cases "reveal_body g p stack")
    case (Inl e)
    then show ?thesis
      by (simp add: n reveal_loop.simps)
  next
    case (Inr s)
    obtain g1 stack1 where s: "s = (g1, stack1)" by (cases s)
    from Inr s have body: "reveal_body g p stack = Inr (g1, stack1)"
      by simp
    from reveal_body_measure [OF body] "2.prems" n have "reveal_measure (g1, stack1) \<le> m"
      by simp
    from "2.IH" [OF body refl this] obtain k where
      k: "reveal_loop_bounded m g1 stack1 = Some (reveal_loop g1 stack1, k)"
        "k \<le> 9 * hidden (revealed g1)"
      by blast
    from reveal_body_pushes [OF body] k(2)
    have "length stack1 - length stack + k \<le> 9 * hidden (revealed g)"
      by linarith
    with body k(1) show ?thesis
      by (simp add: n reveal_loop.simps)
  qed
qed

lemma hidden_le: "shaped R C v \<Longrightarrow> hidden v \<le> nat R * nat C"
proof -
  have "sum_list (map (\<lambda>line. length (filter Not line)) v) \<le> length v * k"
    if "\<forall>line \<in> set v. length line = k" for k and v :: "bool list list"
    using that
  proof (induction v)
    case Nil
    then show ?case by simp
  next
    case (Cons line v)
    have "length (filter Not line) \<le> length line"
      by (rule length_filter_le)
    with Cons show ?case by simp
  qed
  then show "shaped R C v \<Longrightarrow> hidden v \<le> nat R * nat C"
    unfolding shaped_def hidden_def by metis
qed

text \<open>
  Claim C10. For every in-bounds \<open>(r, c)\<close> and every reachable state, the worklist loop
  of \<open>reveal(r, c)\<close> terminates: started with \<open>(r, c)\<close> on the stack, it finds the stack
  empty after at most \<open>9 * R * C + 1\<close> iterations, having made at most \<open>9 * R * C\<close>
  pushes, and \<open>reveal(r, c)\<close> returns.
\<close>

theorem reveal_terminates:
  assumes "reachable g" and "0 \<le> r" and "r < rows g" and "0 \<le> c" and "c < cols g"
  shows "\<exists>g' pushes.
           reveal_loop_bounded (nat (9 * rows g * cols g) + 1) g [(r, c)] = Some (Inr g', pushes) \<and>
           pushes \<le> nat (9 * rows g * cols g) \<and>
           reveal_loop g [(r, c)] = Inr g' \<and>
           (\<exists>g''. reveal g r c = Inr g'')"
proof -
  from assms have inv: "board_inv g" and grid: "in_grid g r c"
    by (simp_all add: reachable_board_inv in_grid_def)
  from inv have "hidden (revealed g) \<le> nat (rows g) * nat (cols g)"
    by (intro hidden_le) (simp add: board_inv_def)
  also from inv have "nat (rows g) * nat (cols g) = nat (rows g * cols g)"
    by (simp add: board_inv_def nat_mult_distrib)
  finally have h: "9 * hidden (revealed g) \<le> nat (9 * rows g * cols g)"
    by (simp add: nat_mult_distrib mult.assoc)
  then have "reveal_measure (g, [(r, c)]) \<le> nat (9 * rows g * cols g) + 1"
    by (simp add: reveal_measure_def)
  from reveal_loop_bounded_enough [OF this] obtain pushes where
    p: "reveal_loop_bounded (nat (9 * rows g * cols g) + 1) g [(r, c)] =
          Some (reveal_loop g [(r, c)], pushes)"
      "pushes \<le> 9 * hidden (revealed g)"
    by blast
  from inv grid obtain g' where g': "reveal_loop g [(r, c)] = Inr g'"
    using reveal_loop_Inr [of g "[(r, c)]"] by auto
  from inv grid have "\<exists>g''. reveal g r c = Inr g''"
    by (rule reveal_Inr)
  with p g' h show ?thesis
    by auto
qed

theorem reveal_terminates_witness:
  "\<exists>g' pushes.
      reveal_loop_bounded 82 board_3x3 [(2, 2)] = Some (Inr g', pushes) \<and>
      pushes \<le> 81 \<and>
      reveal_loop board_3x3 [(2, 2)] = Inr g' \<and>
      (\<exists>g''. reveal board_3x3 2 2 = Inr g'')"
  using reveal_terminates [of board_3x3 2 2] reachable_3x3
  by (simp add: board_3x3_def)

section \<open>No validation of the configuration\<close>

lemma hidden_replicate: "hidden (replicate n (replicate k False)) = n * k"
  by (induction n) (simp_all add: hidden_def)

lemma place_mines_none_needed:
  "\<not> n < M \<Longrightarrow> place_mines M n field draws = Some (Inr field)"
  by (cases draws) auto

lemma place_mines_never_done:
  "shaped R C field \<Longrightarrow> n + int (hidden field) \<le> R * C \<Longrightarrow> R * C < M \<Longrightarrow>
   \<forall>(row, col) \<in> set draws. 0 \<le> row \<and> row < R \<and> 0 \<le> col \<and> col < C \<Longrightarrow>
   place_mines M n field draws = None"
proof (induction draws arbitrary: n field)
  case Nil
  then have "n < M" by linarith
  then show ?case by simp
next
  case (Cons d draws)
  obtain row col where d: "d = (row, col)" by (cases d)
  from Cons.prems have n: "n < M" by linarith
  from Cons.prems d have "at2 field row col \<noteq> None"
    using at2_shaped [of R C field row col] by simp
  then obtain mine where m: "at2 field row col = Some mine" by auto
  show ?case
  proof (cases mine)
    case True
    with Cons.IH [of field n] Cons.prems n m d show ?thesis
      by simp
  next
    case False
    with m have "Suc (hidden (set2 field row col True)) = hidden field"
      by (simp add: hidden_set2)
    with Cons.prems have "n + 1 + int (hidden (set2 field row col True)) \<le> R * C"
      by linarith
    with Cons.IH [of "set2 field row col True" "n + 1"] Cons.prems n m d False show ?thesis
      by (simp add: shaped_set2)
  qed
qed

lemma main_loop_zero: "main_loop game inp = Inr code \<Longrightarrow> code = 0"
  by (induction game inp rule: main_loop.induct) (auto split: if_splits sum.splits)

lemma main_zero: "main inp draws = Some (Inr code) \<Longrightarrow> code = 0"
  by (auto simp: main_def split: list.splits option.splits sum.splits dest: main_loop_zero)

text \<open>
  The constructor tests neither the dimensions nor the number of mines. A 1x1 board
  with \<open>- 1\<close> mines is constructed like one with none, and the session on it ends with
  exit code 0 after \<open>reveal(0, 0)\<close>; a 1x1 board with 2 mines is still in its placement
  loop after any number of draws.
\<close>

theorem invalid_configuration_counterexample:
  "Minesweeper 1 1 (- 1) [] =
     Some (Inr \<lparr>rows = 1, cols = 1, num_mines = - 1, minefield = [[False]],
       revealed = [[False]], counts = [[0]]\<rparr>) \<and>
   main [1, 1, - 1, 0, 0] [] = Some (Inr 0) \<and>
   Minesweeper 1 1 2 [(0, 0), (0, 0), (0, 0)] = None"
  by code_simp

text \<open>
  Claim C2, as the code has it. The constructor validates nothing and the program has
  no invalid-configuration error. For \<open>R \<ge> 1\<close> and \<open>C \<ge> 1\<close>: with \<open>M \<le> 0\<close>, negative
  \<open>M\<close> included, it draws nothing and returns a board without mines; with \<open>M > R * C\<close>
  the placement loop never ends, whatever cells of the board the generator yields.
  Whenever \<open>main\<close> returns, the exit code is 0.
\<close>

theorem no_validation:
  assumes "1 \<le> R" and "1 \<le> C"
  shows "(M \<le> 0 \<longrightarrow>
            (\<exists>g. Minesweeper R C M draws = Some (Inr g) \<and> num_mines g = M \<and>
               minefield g = replicate (nat R) (replicate (nat C) False))) \<and>
         (R * C < M \<and> (\<forall>(row, col) \<in> set draws. 0 \<le> row \<and> row < R \<and> 0 \<le> col \<and> col < C) \<longrightarrow>
            Minesweeper R C M draws = None) \<and>
         (main inp draws = Some (Inr code) \<longrightarrow> code = 0)"
proof (intro conjI impI)
  assume "M \<le> 0"
  then have "place_mines M 0 (replicate (nat R) (replicate (nat C) False)) draws =
      Some (Inr (replicate (nat R) (replicate (nat C) False)))"
    by (intro place_mines_none_needed) simp
  with assms show "\<exists>g. Minesweeper R C M draws = Some (Inr g) \<and> num_mines g = M \<and>
      minefield g = replicate (nat R) (replicate (nat C) False)"
    by (simp add: Minesweeper_def)
next
  assume a: "R * C < M \<and> (\<forall>(row, col) \<in> set draws. 0 \<le> row \<and> row < R \<and> 0 \<le> col \<and> col < C)"
  from assms have "shaped R C (replicate (nat R) (replicate (nat C) False))"
    by (simp add: shaped_replicate)
  moreover from assms have "0 + int (hidden (replicate (nat R) (replicate (nat C) False))) \<le> R * C"
    by (simp add: hidden_replicate)
  ultimately have "place_mines M 0 (replicate (nat R) (replicate (nat C) False)) draws = None"
    using a by (intro place_mines_never_done [of R C]) simp_all
  with assms show "Minesweeper R C M draws = None"
    by (simp add: Minesweeper_def)
next
  assume "main inp draws = Some (Inr code)"
  then show "code = 0"
    by (rule main_zero)
qed

theorem no_validation_witness:
  "(\<exists>g. Minesweeper 3 3 (- 2) [(1, 1)] = Some (Inr g) \<and> num_mines g = - 2 \<and>
      minefield g = replicate (nat 3) (replicate (nat 3) False)) \<and>
   Minesweeper 1 2 3 [(0, 0), (0, 1), (0, 0)] = None \<and>
   main [2, 2, 2, 0, 1, 1, 0] [(0, 0), (1, 1)] = Some (Inr 0)"
proof -
  have m: "main [2, 2, 2, 0, 1, 1, 0] [(0, 0), (1, 1)] = Some (Inr 0)"
    by code_simp
  from no_validation [of 3 3 "- 2" "[(1, 1)]" "[]" 0]
  have a: "\<exists>g. Minesweeper 3 3 (- 2) [(1, 1)] = Some (Inr g) \<and> num_mines g = - 2 \<and>
      minefield g = replicate (nat 3) (replicate (nat 3) False)"
    by simp
  from no_validation [of 1 2 3 "[(0, 0), (0, 1), (0, 0)]" "[2, 2, 2, 0, 1, 1, 0]" 0]
  have b: "Minesweeper 1 2 3 [(0, 0), (0, 1), (0, 0)] = None"
    by simp
  from a b m show ?thesis
    by simp
qed

section \<open>What determines the layout\<close>

lemma place_mines_append:
  "place_mines M n field draws = Some res \<Longrightarrow> place_mines M n field (draws @ later) = Some res"
proof (induction draws arbitrary: n field)
  case Nil
  then show ?case
    by (auto simp: place_mines_none_needed split: if_splits)
next
  case (Cons d draws)
  obtain row col where d: "d = (row, col)" by (cases d)
  from Cons.prems show ?case
    by (auto simp: d split: if_splits option.splits intro: Cons.IH)
qed

text \<open>
  The constructor has the parameters \<open>rows_\<close>, \<open>cols_\<close> and \<open>num_mines_\<close> and no other:
  it makes its own \<open>std::mt19937\<close> and seeds it from \<open>std::random_device\<close>. Two
  constructions of a 1x2 board with one mine differ when the generator yields column 0
  in the one and column 1 in the other.
\<close>

theorem construction_deterministic_counterexample:
  "Minesweeper 1 2 1 [(0, 0)] =
     Some (Inr \<lparr>rows = 1, cols = 2, num_mines = 1, minefield = [[True, False]],
       revealed = [[False, False]], counts = [[- 1, 1]]\<rparr>) \<and>
   Minesweeper 1 2 1 [(0, 1)] =
     Some (Inr \<lparr>rows = 1, cols = 2, num_mines = 1, minefield = [[False, True]],
       revealed = [[False, False]], counts = [[1, - 1]]\<rparr>) \<and>
   Minesweeper 1 2 1 [(0, 0)] \<noteq> Minesweeper 1 2 1 [(0, 1)]"
proof -
  have a: "Minesweeper 1 2 1 [(0, 0)] =
     Some (Inr \<lparr>rows = 1, cols = 2, num_mines = 1, minefield = [[True, False]],
       revealed = [[False, False]], counts = [[- 1, 1]]\<rparr>)"
    by code_simp
  have b: "Minesweeper 1 2 1 [(0, 1)] =
     Some (Inr \<lparr>rows = 1, cols = 2, num_mines = 1, minefield = [[False, True]],
       revealed = [[False, False]], counts = [[1, - 1]]\<rparr>)"
    by code_simp
  show ?thesis
    unfolding a b by simp
qed

text \<open>
  Claim C6, as the code has it. The random source is not a parameter of the
  constructor, so two constructions with the same \<open>R\<close>, \<open>C\<close>, \<open>M\<close> can differ. The
  layout is determined by \<open>R\<close>, \<open>C\<close>, \<open>M\<close> and the coordinates the generator yields:
  when a construction returns a board after the draws \<open>draws\<close>, every construction with
  the same \<open>R\<close>, \<open>C\<close>, \<open>M\<close> whose generator starts with these draws returns the same board.
\<close>

theorem layout_determined:
  assumes "Minesweeper R C M draws = Some (Inr g)"
  shows "Minesweeper R C M (draws @ later) = Some (Inr g)"
proof -
  from assms have RC: "\<not> (R < 0 \<or> C < 0)" "\<not> (R - 1 < 0 \<or> C - 1 < 0)"
    by (auto simp: Minesweeper_def split: if_splits)
  with assms obtain field where
    pm: "place_mines M 0 (replicate (nat R) (replicate (nat C) False)) draws = Some (Inr field)"
    by (auto simp: Minesweeper_def split: option.splits sum.splits)
  from place_mines_append [OF pm]
  have "place_mines M 0 (replicate (nat R) (replicate (nat C) False)) (draws @ later) =
      Some (Inr field)" .
  with assms pm RC show ?thesis
    by (simp add: Minesweeper_def)
qed

theorem layout_determined_witness:
  "Minesweeper 2 2 2 [(0, 0), (0, 0), (1, 1)] = Some (Inr board_2x2) \<and>
   Minesweeper 2 2 2 ([(0, 0), (0, 0), (1, 1)] @ [(0, 1), (1, 0)]) = Some (Inr board_2x2)"
  using layout_determined [of 2 2 2 "[(0, 0), (0, 0), (1, 1)]" board_2x2 "[(0, 1), (1, 0)]"]
    Minesweeper_2x2
  by simp

end
